theory Spec2Isabelle
  imports Main
begin

section \<open>Data model of \<open>client/lib/graphAlgorithms.ts\<close>\<close>

text \<open>
  The engine works on JavaScript values.  A \<open>number\<close> is an IEEE double.  Edge weights are
  integers that are doubles (the interface reads them with \<open>parseInt\<close>), so every number
  that the engine stores is an integer-valued double, \<open>Infinity\<close> or \<open>-Infinity\<close>;
  \<open>Fin x\<close> stands for the double whose value is the integer \<open>x\<close>.  \<open>NaN\<close> arises only as the
  value of \<open>undefined + weight\<close> and is never stored.
\<close>

datatype number = Fin int | Infinity | NegInfinity | NaN

record GraphEdge =
  source :: string
  destination :: string
  weight :: int

text \<open>
  The field \<open>id\<close> of a node is called \<open>node_id\<close> here (\<open>id\<close> is the identity function of
  HOL).  The optional display coordinates are never read by the engine.
\<close>

record GraphNode =
  node_id :: string
  node_x :: "int option"
  node_y :: "int option"

type_synonym AdjacencyList = "string \<rightharpoonup> (string \<times> int) list"

datatype step_type = initial | select | relax | update | complete | negative_cycle

text \<open>
  A step holds copies of both maps at the instant it is pushed.  Its \<open>distances\<close> and
  \<open>previous\<close> fields are called \<open>snap_distances\<close> and \<open>snap_previous\<close> here, since the
  result record has fields of the same names, and its \<open>type\<close> field is called \<open>stype\<close>.
  An optional field that is absent is \<open>None\<close>.  The \<open>message\<close> string of a step is
  presentation only and is left out.
\<close>

record AlgorithmStep =
  stype :: step_type
  iteration :: nat
  currentNode :: "string option"
  currentEdge :: "(string \<times> string) option"
  snap_distances :: "string \<rightharpoonup> number"
  snap_previous :: "string \<rightharpoonup> string option"
  updatedNodes :: "string list option"

record AlgorithmResult =
  distances :: "string \<rightharpoonup> number"
  previous :: "string \<rightharpoonup> string option"
  steps :: "AlgorithmStep list"
  hasNegativeCycle :: bool
  shortestPathTree :: "GraphEdge list"

datatype error = TypeError

subsection \<open>JavaScript arithmetic on the values that occur\<close>

text \<open>\<open>undefined\<close> converts to \<open>NaN\<close> in \<open>+\<close> and \<open><\<close>.\<close>

fun to_number :: "number option \<Rightarrow> number" where
  "to_number None = NaN"
| "to_number (Some v) = v"

text \<open>
  The sum of two doubles is the exact sum rounded to the nearest double, ties to the even
  mantissa.  Integers up to \<open>2^53\<close> in magnitude are doubles.  A larger integer keeps its
  53 leading bits: \<open>bitlen\<close> is the number of its binary digits, \<open>k\<close> the number of digits
  cut off, \<open>q\<close> the mantissa and \<open>r\<close> the part cut off.  From \<open>2^1024 - 2^970\<close> on, half
  a unit above the largest double, the sum overflows to an infinity.
\<close>

fun bitlen :: "nat \<Rightarrow> nat" where
  "bitlen n = (if n = 0 then 0 else Suc (bitlen (n div 2)))"

declare bitlen.simps [simp del]

definition round_to_53 :: "nat \<Rightarrow> nat" where
  "round_to_53 n =
     (if n \<le> 2 ^ 53 then n
      else (let k = bitlen n - 53; q = n div 2 ^ k; r = n mod 2 ^ k
            in (if 2 ^ k < 2 * r \<or> (2 * r = 2 ^ k \<and> odd q) then q + 1 else q) * 2 ^ k))"

definition to_double :: "int \<Rightarrow> number" where
  "to_double x =
     (if 2 ^ 1024 - 2 ^ 970 \<le> \<bar>x\<bar> then (if x < 0 then NegInfinity else Infinity)
      else Fin (sgn x * int (round_to_53 (nat \<bar>x\<bar>))))"

text \<open>\<open>a + weight\<close> for a stored number or \<open>NaN\<close> and a weight.\<close>

fun js_add :: "number \<Rightarrow> int \<Rightarrow> number" where
  "js_add (Fin a) w = to_double (a + w)"
| "js_add Infinity w = Infinity"
| "js_add NegInfinity w = NegInfinity"
| "js_add NaN w = NaN"

text \<open>\<open>a < b\<close>; a comparison with \<open>NaN\<close> is false.\<close>

fun js_lt :: "number \<Rightarrow> number \<Rightarrow> bool" where
  "js_lt (Fin a) (Fin b) = (a < b)"
| "js_lt (Fin a) Infinity = True"
| "js_lt NegInfinity (Fin b) = True"
| "js_lt NegInfinity Infinity = True"
| "js_lt _ _ = False"

subsection \<open>Plain objects used as maps\<close>

text \<open>
  \<open>distances\<close>, \<open>previous\<close> and \<open>adjList\<close> are plain objects created by \<open>{}\<close>.  Such an
  object is represented by the partial map of its own properties, which are what the
  copies \<open>{ ...distances }\<close> and \<open>{ ...previous }\<close> in the steps contain.  Two things
  distinguish it from a map.

  First, the key \<open>__proto__\<close>.  As long as the object inherits from \<open>Object.prototype\<close>,
  the assignment \<open>obj['__proto__'] = v\<close> creates no property: it calls the inherited
  setter, which replaces the prototype of the object when \<open>v\<close> is an object or \<open>null\<close>, and
  does nothing when \<open>v\<close> is a number or a string.  So a number is never stored under
  \<open>__proto__\<close> in \<open>distances\<close>.  In \<open>previous\<close>, the first assignment of \<open>null\<close> to
  \<open>__proto__\<close> sets the prototype to \<open>null\<close>; from then on the object inherits nothing, and
  a later assignment to \<open>__proto__\<close> creates an own property.  The working state records
  in \<open>st_null_proto\<close> whether the prototype of \<open>previous\<close> has been set to \<open>null\<close>.

  Second, reading a key that is not an own property.  This gives \<open>undefined\<close>, which is
  \<open>None\<close> here, except for the names that \<open>Object.prototype\<close> defines: \<open>__proto__\<close> gives
  the prototype object and each of \<open>inherited_methods\<close> gives a function.  In \<open>+\<close> and \<open><\<close>
  such a value is converted to a string, the prototype object to \<open>[object Object]\<close> and a
  function to its source text, which begins with \<open>function\<close>.  Compared with a number or
  with \<open>undefined\<close> it behaves as \<open>undefined\<close> does: the comparison is false.  Two such
  values are compared as strings, and that comparison can be true only when the value on
  the right is a function.  The model represents a read of a missing key by \<open>None\<close> in
  every case.  It agrees with the code except when the test of Bellman-Ford, which alone
  can have such a value on the left, is evaluated for an edge whose destination is one of
  the \<open>inherited_methods\<close> and not a node id; the predicate \<open>no_inherited_destination\<close>
  below excludes such edges.
\<close>

definition proto_key :: string where
  "proto_key = ''__proto__''"

definition inherited_methods :: "string list" where
  "inherited_methods =
     [''constructor'', ''__defineGetter__'', ''__defineSetter__'', ''hasOwnProperty'',
      ''__lookupGetter__'', ''__lookupSetter__'', ''isPrototypeOf'', ''propertyIsEnumerable'',
      ''toString'', ''valueOf'', ''toLocaleString'']"

text \<open>\<open>distances[k] = v\<close> for a number \<open>v\<close>.\<close>

definition set_distance :: "(string \<rightharpoonup> number) \<Rightarrow> string \<Rightarrow> number \<Rightarrow> (string \<rightharpoonup> number)" where
  "set_distance dist k v = (if k = proto_key then dist else dist(k \<mapsto> v))"

text \<open>
  \<open>previous[k] = v\<close> for \<open>v\<close> a string or \<open>null\<close> (\<open>None\<close>): the own properties and the flag
  after the assignment.
\<close>

definition set_previous ::
    "(string \<rightharpoonup> string option) \<Rightarrow> bool \<Rightarrow> string \<Rightarrow> string option \<Rightarrow> (string \<rightharpoonup> string option)" where
  "set_previous prev null_proto k v =
     (if k = proto_key \<and> \<not> null_proto then prev else prev(k \<mapsto> v))"

definition set_previous_null :: "bool \<Rightarrow> string \<Rightarrow> string option \<Rightarrow> bool" where
  "set_previous_null null_proto k v \<longleftrightarrow> null_proto \<or> (k = proto_key \<and> v = None)"

text \<open>
  The working state shared by the loops: the own properties of both maps, the flag of
  \<open>previous\<close>, and the steps pushed so far.
\<close>

record state =
  st_distances :: "string \<rightharpoonup> number"
  st_previous :: "string \<rightharpoonup> string option"
  st_null_proto :: bool
  st_steps :: "AlgorithmStep list"

subsection \<open>Adjacency builder\<close>

text \<open>
  \<open>nodes.forEach(n => adjList[n.id] = [])\<close>.  For the id \<open>__proto__\<close> the assignment makes
  the new array the prototype of \<open>adjList\<close>, and \<open>adjList['__proto__']\<close> then reads that
  array: the key behaves as every other key does.
\<close>

fun init_adj :: "GraphNode list \<Rightarrow> AdjacencyList \<Rightarrow> AdjacencyList" where
  "init_adj [] adjList = adjList"
| "init_adj (n # ns) adjList = init_adj ns (adjList(node_id n \<mapsto> []))"

text \<open>
  \<open>edges.forEach(e => adjList[e.source].push(...))\<close>: when \<open>adjList[e.source]\<close> is not an
  array (\<open>undefined\<close>, or an inherited value without \<open>push\<close>) the call throws a TypeError.
\<close>

fun add_edges :: "GraphEdge list \<Rightarrow> AdjacencyList \<Rightarrow> error + AdjacencyList" where
  "add_edges [] adjList = Inr adjList"
| "add_edges (e # es) adjList =
     (case adjList (source e) of
        None \<Rightarrow> Inl TypeError
      | Some l \<Rightarrow> add_edges es (adjList(source e \<mapsto> l @ [(destination e, weight e)])))"

definition buildAdjacencyList :: "GraphNode list \<Rightarrow> GraphEdge list \<Rightarrow> error + AdjacencyList" where
  "buildAdjacencyList nodes edges = add_edges edges (init_adj nodes Map.empty)"

subsection \<open>Initialisation and tree reconstruction, common to both algorithms\<close>

text \<open>
  \<open>nodes.forEach(n => { distances[n.id] = n.id === sourceNode ? 0 : Infinity;
  previous[n.id] = null })\<close>
\<close>

fun init_maps :: "GraphNode list \<Rightarrow> string \<Rightarrow>
    (string \<rightharpoonup> number) \<times> (string \<rightharpoonup> string option) \<times> bool \<Rightarrow>
    (string \<rightharpoonup> number) \<times> (string \<rightharpoonup> string option) \<times> bool" where
  "init_maps [] sourceNode (dist, prev, null_proto) = (dist, prev, null_proto)"
| "init_maps (n # ns) sourceNode (dist, prev, null_proto) =
     init_maps ns sourceNode
       (set_distance dist (node_id n) (if node_id n = sourceNode then Fin 0 else Infinity),
        set_previous prev null_proto (node_id n) None,
        set_previous_null null_proto (node_id n) None)"

definition initial_step :: "(string \<rightharpoonup> number) \<Rightarrow> (string \<rightharpoonup> string option) \<Rightarrow> AlgorithmStep" where
  "initial_step dist prev =
     \<lparr>stype = initial, iteration = 0, currentNode = None, currentEdge = None,
      snap_distances = dist, snap_previous = prev, updatedNodes = None\<rparr>"

definition init_state :: "GraphNode list \<Rightarrow> string \<Rightarrow> state" where
  "init_state nodes sourceNode =
     (case init_maps nodes sourceNode (Map.empty, Map.empty, False) of
        (dist, prev, null_proto) \<Rightarrow>
          \<lparr>st_distances = dist, st_previous = prev, st_null_proto = null_proto,
           st_steps = [initial_step dist prev]\<rparr>)"

text \<open>
  \<open>if (previous[n.id]) { const e = edges.find(...); if (e) shortestPathTree.push(e) }\<close>:
  \<open>null\<close>, \<open>undefined\<close> and the empty string are falsy.  (An inherited value would be
  truthy but equal to no edge source, so that no edge is found: the result is the same.)
\<close>

fun build_tree :: "GraphNode list \<Rightarrow> GraphEdge list \<Rightarrow> (string \<rightharpoonup> string option) \<Rightarrow>
    GraphEdge list \<Rightarrow> GraphEdge list" where
  "build_tree [] edges prev tree = tree"
| "build_tree (n # ns) edges prev tree =
     (case prev (node_id n) of
        Some (Some p) \<Rightarrow>
          (if p \<noteq> [] then
             (case find (\<lambda>e. source e = p \<and> destination e = node_id n) edges of
                Some e \<Rightarrow> build_tree ns edges prev (tree @ [e])
              | None \<Rightarrow> build_tree ns edges prev tree)
           else build_tree ns edges prev tree)
      | _ \<Rightarrow> build_tree ns edges prev tree)"

subsection \<open>Dijkstra\<close>

text \<open>The scan \<open>for (const n of nodes) if (!visited.has(n.id) && distances[n.id] < minDist)\<close>.\<close>

fun scan_min :: "GraphNode list \<Rightarrow> string list \<Rightarrow> (string \<rightharpoonup> number) \<Rightarrow>
    string option \<times> number \<Rightarrow> string option \<times> number" where
  "scan_min [] visited dist (minNode, minDist) = (minNode, minDist)"
| "scan_min (n # ns) visited dist (minNode, minDist) =
     (if node_id n \<notin> set visited \<and> js_lt (to_number (dist (node_id n))) minDist
      then scan_min ns visited dist (Some (node_id n), to_number (dist (node_id n)))
      else scan_min ns visited dist (minNode, minDist))"

text \<open>\<open>visited.add(minNode)\<close> on a \<open>Set\<close>, kept in insertion order.\<close>

definition set_add :: "string \<Rightarrow> string list \<Rightarrow> string list" where
  "set_add v visited = (if v \<in> set visited then visited else visited @ [v])"

definition select_step :: "nat \<Rightarrow> string \<Rightarrow> state \<Rightarrow> AlgorithmStep" where
  "select_step i minNode st =
     \<lparr>stype = select, iteration = i, currentNode = Some minNode, currentEdge = None,
      snap_distances = st_distances st, snap_previous = st_previous st, updatedNodes = None\<rparr>"

definition relax_step :: "nat \<Rightarrow> string \<Rightarrow> string \<Rightarrow>
    (string \<rightharpoonup> number) \<Rightarrow> (string \<rightharpoonup> string option) \<Rightarrow> AlgorithmStep" where
  "relax_step i u v dist prev =
     \<lparr>stype = relax, iteration = i, currentNode = None, currentEdge = Some (u, v),
      snap_distances = dist, snap_previous = prev, updatedNodes = Some [v]\<rparr>"

text \<open>
  The two assignments of a relaxation, \<open>distances[v] = newDist; previous[v] = u\<close>, and the
  \<open>relax\<close> step pushed after them.
\<close>

definition relax_write :: "nat \<Rightarrow> string \<Rightarrow> string \<Rightarrow> number \<Rightarrow> state \<Rightarrow> state" where
  "relax_write i u v newDist st =
     (let dist = set_distance (st_distances st) v newDist;
          prev = set_previous (st_previous st) (st_null_proto st) v (Some u)
      in \<lparr>st_distances = dist, st_previous = prev,
          st_null_proto = set_previous_null (st_null_proto st) v (Some u),
          st_steps = st_steps st @ [relax_step i u v dist prev]\<rparr>)"

text \<open>The loop over \<open>adjList[minNode]\<close>; \<open>distances[minNode]\<close> is read anew for every pair.\<close>

fun relax_neighbors :: "string \<Rightarrow> nat \<Rightarrow> (string \<times> int) list \<Rightarrow> state \<Rightarrow> state" where
  "relax_neighbors minNode i [] st = st"
| "relax_neighbors minNode i ((neighbor, w) # rest) st =
     (let newDist = js_add (to_number (st_distances st minNode)) w in
      if js_lt newDist (to_number (st_distances st neighbor))
      then relax_neighbors minNode i rest (relax_write i minNode neighbor newDist st)
      else relax_neighbors minNode i rest st)"

text \<open>
  The \<open>while (visited.size < nodes.length)\<close> loop.  \<open>if (!minNode) break\<close> leaves the loop
  when \<open>minNode\<close> is \<open>null\<close> and also when it is the empty string.  Iterating over
  \<open>adjList[minNode]\<close> throws when that entry is \<open>undefined\<close>.  The loop returns the
  iteration counter with the state.
\<close>

function dijkstra_loop :: "GraphNode list \<Rightarrow> AdjacencyList \<Rightarrow> string list \<Rightarrow> nat \<Rightarrow> state \<Rightarrow>
    error + (nat \<times> state)" where
  "dijkstra_loop nodes adjList visited i st =
     (if length visited < length nodes then
        (case scan_min nodes visited (st_distances st) (None, Infinity) of
           (None, minDist) \<Rightarrow> Inr (i, st)
         | (Some minNode, minDist) \<Rightarrow>
             if minNode = [] then Inr (i, st)
             else
               (case adjList minNode of
                  None \<Rightarrow> Inl TypeError
                | Some nbrs \<Rightarrow>
                    dijkstra_loop nodes adjList (set_add minNode visited) (Suc i)
                      (relax_neighbors minNode i nbrs
                         (st\<lparr>st_steps := st_steps st @ [select_step i minNode st]\<rparr>))))
      else Inr (i, st))"
  by pat_completeness auto
termination
proof (relation "measure (\<lambda>(nodes, adjList, visited, i, st). card (node_id ` set nodes - set visited))")
  show "wf (measure (\<lambda>(nodes, adjList, visited, i, st). card (node_id ` set nodes - set visited)))"
    by simp
next
  fix nodes :: "GraphNode list" and adjList :: AdjacencyList and visited :: "string list"
    and i :: nat and st :: state and x1 x2 minNode nbrs
  assume scan: "(x1, x2) = scan_min nodes visited (st_distances st) (None, Infinity)"
    and x1: "x1 = Some minNode"
  have found: "a = Some m \<or> (m \<in> node_id ` set ns \<and> m \<notin> set visited)"
    if "scan_min ns visited dist (a, d) = (Some m, d')" for ns dist a d m d'
    using that by (induction ns arbitrary: a d) (auto split: if_splits)
  from scan x1 have "scan_min nodes visited (st_distances st) (None, Infinity) = (Some minNode, x2)"
    by simp
  from found [OF this] have m: "minNode \<in> node_id ` set nodes" "minNode \<notin> set visited"
    by auto
  have "node_id ` set nodes - set (set_add minNode visited)
      \<subset> node_id ` set nodes - set visited"
    using m by (auto simp: set_add_def)
  then have "card (node_id ` set nodes - set (set_add minNode visited))
      < card (node_id ` set nodes - set visited)"
    by (intro psubset_card_mono) auto
  then show "((nodes, adjList, set_add minNode visited, Suc i,
        relax_neighbors minNode i nbrs (st\<lparr>st_steps := st_steps st @ [select_step i minNode st]\<rparr>)),
       (nodes, adjList, visited, i, st))
      \<in> measure (\<lambda>(nodes, adjList, visited, i, st). card (node_id ` set nodes - set visited))"
    by simp
qed

declare dijkstra_loop.simps [simp del]

definition complete_step :: "nat \<Rightarrow> state \<Rightarrow> AlgorithmStep" where
  "complete_step i st =
     \<lparr>stype = complete, iteration = i, currentNode = None, currentEdge = None,
      snap_distances = st_distances st, snap_previous = st_previous st, updatedNodes = None\<rparr>"

definition dijkstra :: "GraphNode list \<Rightarrow> GraphEdge list \<Rightarrow> string \<Rightarrow> error + AlgorithmResult" where
  "dijkstra nodes edges sourceNode =
     (case buildAdjacencyList nodes edges of
        Inl err \<Rightarrow> Inl err
      | Inr adjList \<Rightarrow>
          (case dijkstra_loop nodes adjList [] 1 (init_state nodes sourceNode) of
             Inl err \<Rightarrow> Inl err
           | Inr (i, st) \<Rightarrow>
               Inr \<lparr>distances = st_distances st, previous = st_previous st,
                    steps = st_steps st @ [complete_step i st],
                    hasNegativeCycle = False,
                    shortestPathTree = build_tree nodes edges (st_previous st) []\<rparr>))"

subsection \<open>Bellman-Ford\<close>

text \<open>
  The test of the relaxation passes,
  \<open>distances[source] !== Infinity && distances[source] + weight < distances[destination]\<close>.
\<close>

definition can_relax :: "(string \<rightharpoonup> number) \<Rightarrow> GraphEdge \<Rightarrow> bool" where
  "can_relax dist e \<longleftrightarrow>
     dist (source e) \<noteq> Some Infinity \<and>
     js_lt (js_add (to_number (dist (source e))) (weight e)) (to_number (dist (destination e)))"

text \<open>One pass over the edges; the flag is \<open>relaxed\<close>.\<close>

fun relax_edges :: "nat \<Rightarrow> GraphEdge list \<Rightarrow> bool \<times> state \<Rightarrow> bool \<times> state" where
  "relax_edges i [] (relaxed, st) = (relaxed, st)"
| "relax_edges i (e # es) (relaxed, st) =
     (if can_relax (st_distances st) e
      then relax_edges i es
             (True, relax_write i (source e) (destination e)
                      (js_add (to_number (st_distances st (source e))) (weight e)) st)
      else relax_edges i es (relaxed, st))"

definition update_step :: "nat \<Rightarrow> state \<Rightarrow> AlgorithmStep" where
  "update_step i st =
     \<lparr>stype = update, iteration = i, currentNode = None, currentEdge = None,
      snap_distances = st_distances st, snap_previous = st_previous st, updatedNodes = None\<rparr>"

text \<open>
  \<open>for (let i = 1; i <= nodes.length - 1; i++)\<close>, with the \<open>break\<close> after a pass that
  relaxed nothing.
\<close>

function bf_passes :: "GraphNode list \<Rightarrow> GraphEdge list \<Rightarrow> nat \<Rightarrow> state \<Rightarrow> state" where
  "bf_passes nodes edges i st =
     (if int i \<le> int (length nodes) - 1 then
        (case relax_edges i edges (False, st) of
           (relaxed, st') \<Rightarrow>
             if \<not> relaxed then st'\<lparr>st_steps := st_steps st' @ [update_step i st']\<rparr>
             else bf_passes nodes edges (Suc i) st')
      else st)"
  by pat_completeness auto
termination
  by (relation "measure (\<lambda>(nodes, edges, i, st). length nodes - i)") auto

declare bf_passes.simps [simp del]

text \<open>The test of the detection scan, \<open>distances[source] + weight < distances[destination]\<close>.\<close>

definition improves :: "(string \<rightharpoonup> number) \<Rightarrow> GraphEdge \<Rightarrow> bool" where
  "improves dist e \<longleftrightarrow>
     js_lt (js_add (to_number (dist (source e))) (weight e)) (to_number (dist (destination e)))"

definition negative_cycle_step :: "nat \<Rightarrow> GraphEdge \<Rightarrow> state \<Rightarrow> AlgorithmStep" where
  "negative_cycle_step i e st =
     \<lparr>stype = negative_cycle, iteration = i, currentNode = None,
      currentEdge = Some (source e, destination e),
      snap_distances = st_distances st, snap_previous = st_previous st, updatedNodes = None\<rparr>"

definition bellmanFord :: "GraphNode list \<Rightarrow> GraphEdge list \<Rightarrow> string \<Rightarrow> AlgorithmResult" where
  "bellmanFord nodes edges sourceNode =
     (let st = bf_passes nodes edges 1 (init_state nodes sourceNode) in
      case find (improves (st_distances st)) edges of
        Some e \<Rightarrow>
          \<lparr>distances = st_distances st, previous = st_previous st,
           steps = st_steps st @ [negative_cycle_step (length nodes) e st],
           hasNegativeCycle = True, shortestPathTree = []\<rparr>
      | None \<Rightarrow>
          \<lparr>distances = st_distances st, previous = st_previous st,
           steps = st_steps st @ [complete_step (length nodes) st],
           hasNegativeCycle = False,
           shortestPathTree = build_tree nodes edges (st_previous st) []\<rparr>)"

section \<open>The second variant of the engine (\<open>unnamed/part_001\<close>)\<close>

text \<open>
  The repository holds a second copy of the engine with the same interface.  Its builder
  creates a missing entry instead of failing, and its Bellman-Ford neither stops early nor
  returns early.  Its functions carry the suffix \<open>_alt\<close>.  Its Dijkstra, which ends the
  selection loop at \<open>minNode === null || minDist === Infinity\<close>, is not modelled.
\<close>

text \<open>
  \<open>if (!adjList[node.id]) adjList[node.id] = []\<close>: an array is truthy, and so is the value
  read for a name that \<open>Object.prototype\<close> defines; for such a name no entry is created.
\<close>

definition inherited_keys :: "string list" where
  "inherited_keys = proto_key # inherited_methods"

fun init_adj_alt :: "GraphNode list \<Rightarrow> AdjacencyList \<Rightarrow> AdjacencyList" where
  "init_adj_alt [] adjList = adjList"
| "init_adj_alt (n # ns) adjList =
     (if adjList (node_id n) = None \<and> node_id n \<notin> set inherited_keys
      then init_adj_alt ns (adjList(node_id n \<mapsto> []))
      else init_adj_alt ns adjList)"

text \<open>
  \<open>if (!adjList[edge.source]) adjList[edge.source] = []; adjList[edge.source].push(...)\<close>:
  an inherited value has no \<open>push\<close>, and the call throws a TypeError.
\<close>

fun add_edges_alt :: "GraphEdge list \<Rightarrow> AdjacencyList \<Rightarrow> error + AdjacencyList" where
  "add_edges_alt [] adjList = Inr adjList"
| "add_edges_alt (e # es) adjList =
     (case adjList (source e) of
        Some l \<Rightarrow> add_edges_alt es (adjList(source e \<mapsto> l @ [(destination e, weight e)]))
      | None \<Rightarrow>
          if source e \<in> set inherited_keys then Inl TypeError
          else add_edges_alt es (adjList(source e \<mapsto> [] @ [(destination e, weight e)])))"

definition buildAdjacencyList_alt :: "GraphNode list \<Rightarrow> GraphEdge list \<Rightarrow> error + AdjacencyList" where
  "buildAdjacencyList_alt nodes edges = add_edges_alt edges (init_adj_alt nodes Map.empty)"




section \<open>Notions used in the statements and proofs\<close>

abbreviation node_ids :: "GraphNode list \<Rightarrow> string set" where
  "node_ids nodes \<equiv> node_id ` set nodes"

text \<open>
  No edge leads to a name that is one of the \<open>inherited_methods\<close> without being a node id.
  For such inputs every comparison of Bellman-Ford is the one the model makes.
\<close>

definition no_inherited_destination :: "GraphNode list \<Rightarrow> GraphEdge list \<Rightarrow> bool" where
  "no_inherited_destination nodes edges \<longleftrightarrow>
     (\<forall>e \<in> set edges. destination e \<in> set inherited_methods \<longrightarrow> destination e \<in> node_ids nodes)"

text \<open>
  A property of the two maps is \<open>stable\<close> when every write that the engines perform keeps
  it: a write happens only after the test \<open>distances[u] + w < distances[v]\<close> succeeded,
  and stores that sum at \<open>v\<close> with predecessor \<open>u\<close>.
\<close>

definition stable :: "((string \<rightharpoonup> number) \<Rightarrow> (string \<rightharpoonup> string option) \<Rightarrow> bool) \<Rightarrow> bool" where
  "stable P \<longleftrightarrow>
     (\<forall>d p u v w. P d p \<and> js_lt (js_add (to_number (d u)) w) (to_number (d v)) \<longrightarrow>
        P (d(v \<mapsto> js_add (to_number (d u)) w)) (p(v \<mapsto> Some u)))"

text \<open>
  The property holds of the current maps and of the snapshot of every step pushed, and
  \<open>distances\<close> has no property \<open>__proto__\<close>.
\<close>

definition inv_state :: "((string \<rightharpoonup> number) \<Rightarrow> (string \<rightharpoonup> string option) \<Rightarrow> bool) \<Rightarrow> state \<Rightarrow> bool" where
  "inv_state P st \<longleftrightarrow>
     st_distances st proto_key = None \<and>
     P (st_distances st) (st_previous st) \<and>
     (\<forall>s \<in> set (st_steps st). P (snap_distances s) (snap_previous s))"

definition inv_result :: "((string \<rightharpoonup> number) \<Rightarrow> (string \<rightharpoonup> string option) \<Rightarrow> bool) \<Rightarrow>
    AlgorithmResult \<Rightarrow> bool" where
  "inv_result P r \<longleftrightarrow>
     P (distances r) (previous r) \<and>
     (\<forall>s \<in> set (steps r). P (snap_distances s) (snap_previous s))"

text \<open>
  For every key of the distances: without predecessor it is the source at distance 0 or
  is at distance \<open>Infinity\<close>; with a predecessor its distance is finite or \<open>-Infinity\<close>.
\<close>

definition pred_dist_consistent ::
    "string \<Rightarrow> (string \<rightharpoonup> number) \<Rightarrow> (string \<rightharpoonup> string option) \<Rightarrow> bool" where
  "pred_dist_consistent src d p \<longleftrightarrow>
     (\<forall>k \<in> dom d.
        (p k = Some None \<and> ((d k = Some (Fin 0) \<and> k = src) \<or> d k = Some Infinity)) \<or>
        ((\<exists>u. p k = Some (Some u)) \<and> ((\<exists>c. d k = Some (Fin c)) \<or> d k = Some NegInfinity)))"

text \<open>Both maps have exactly the keys \<open>ks\<close>.\<close>

definition keys_are :: "string set \<Rightarrow> (string \<rightharpoonup> number) \<Rightarrow> (string \<rightharpoonup> string option) \<Rightarrow> bool" where
  "keys_are ks d p \<longleftrightarrow> dom d = ks \<and> dom p = ks"

text \<open>
  The first step is an \<open>initial\<close> step whose snapshot has the source at 0 as its only
  finite entry, or only infinite entries when the source is not a node.
\<close>

definition starts_initialised :: "GraphNode list \<Rightarrow> string \<Rightarrow> AlgorithmResult \<Rightarrow> bool" where
  "starts_initialised nodes src r \<longleftrightarrow>
     (\<exists>s rest. steps r = s # rest \<and> stype s = initial \<and>
        (if src \<in> node_ids nodes
         then snap_distances s src = Some (Fin 0) \<and>
              {k. \<exists>c. snap_distances s k = Some (Fin c)} = {src}
         else \<forall>k \<in> dom (snap_distances s). snap_distances s k = Some Infinity))"

text \<open>The outgoing (neighbor, weight) pairs of a node, in edge-list order.\<close>

definition out_edges :: "GraphEdge list \<Rightarrow> string \<Rightarrow> (string \<times> int) list" where
  "out_edges edges k = map (\<lambda>e. (destination e, weight e)) (filter (\<lambda>e. source e = k) edges)"

text \<open>Nodes and edges of the concrete scenarios.\<close>

definition nd :: "string \<Rightarrow> GraphNode" where
  "nd a = \<lparr>node_id = a, node_x = None, node_y = None\<rparr>"

definition ed :: "string \<Rightarrow> string \<Rightarrow> int \<Rightarrow> GraphEdge" where
  "ed a b w = \<lparr>source = a, destination = b, weight = w\<rparr>"

text \<open>
  A degenerate result: every entry of the distances is \<open>Infinity\<close> and every entry of the
  predecessors is none, in the result and in every step; every node id other than
  \<open>__proto__\<close> has an entry; there is no tree and no negative cycle.
\<close>

definition degenerate :: "GraphNode list \<Rightarrow> AlgorithmResult \<Rightarrow> bool" where
  "degenerate nodes r \<longleftrightarrow>
     (\<forall>k \<in> dom (distances r). distances r k = Some Infinity) \<and>
     (\<forall>k \<in> dom (previous r). previous r k = Some None) \<and>
     node_ids nodes - {proto_key} \<subseteq> dom (distances r) \<inter> dom (previous r) \<and>
     shortestPathTree r = [] \<and> \<not> hasNegativeCycle r \<and>
     (\<forall>s \<in> set (steps r). snap_distances s = distances r \<and> snap_previous s = previous r)"



text \<open>The scenario of the specification: nodes A, B, C and three edges.\<close>

definition scenario_nodes :: "GraphNode list" where
  "scenario_nodes = [nd ''A'', nd ''B'', nd ''C'']"

definition scenario_edges :: "GraphEdge list" where
  "scenario_edges = [ed ''A'' ''B'' 4, ed ''A'' ''C'' 1, ed ''C'' ''B'' 1]"




text \<open>
  A path A, B, C whose two edges have the weight \<open>- 2^1023\<close>: the weight is a double, the
  sum of the two is not.
\<close>

definition huge :: int where
  "huge = 2 ^ 1023"

definition overflow_edges :: "GraphEdge list" where
  "overflow_edges = [ed ''A'' ''B'' (- huge), ed ''B'' ''C'' (- huge)]"

section \<open>JavaScript comparisons and sums\<close>

lemma js_lt_iff:
  "js_lt a b \<longleftrightarrow>
     (a = NegInfinity \<or> (\<exists>x. a = Fin x)) \<and> (b = Infinity \<or> (\<exists>y. b = Fin y)) \<and>
     (\<forall>x y. a = Fin x \<and> b = Fin y \<longrightarrow> x < y)"
  by (cases a; cases b) auto

lemma to_number_Fin [simp]: "to_number v = Fin x \<longleftrightarrow> v = Some (Fin x)"
  by (cases v) auto

lemma to_number_Infinity [simp]: "to_number v = Infinity \<longleftrightarrow> v = Some Infinity"
  by (cases v) auto

lemma to_number_NegInfinity [simp]: "to_number v = NegInfinity \<longleftrightarrow> v = Some NegInfinity"
  by (cases v) auto

text \<open>
  A comparison that succeeds has a finite number or \<open>-Infinity\<close> on the left and a stored
  number on the right.
\<close>

lemma js_lt_left: "js_lt a b \<Longrightarrow> a = NegInfinity \<or> (\<exists>x. a = Fin x)"
  by (simp add: js_lt_iff)

lemma js_lt_right: "js_lt a (to_number v) \<Longrightarrow> v = Some Infinity \<or> (\<exists>y. v = Some (Fin y))"
  by (auto simp: js_lt_iff)

text \<open>Sums up to \<open>2^53\<close> in magnitude are exact.\<close>

lemma to_double_small: "\<bar>x\<bar> \<le> 2 ^ 53 \<Longrightarrow> to_double x = Fin x"
proof -
  assume a: "\<bar>x\<bar> \<le> 2 ^ 53"
  have "(2 :: int) ^ 53 < 2 ^ 1024 - 2 ^ 970" by simp
  with a have "\<not> 2 ^ 1024 - 2 ^ 970 \<le> \<bar>x\<bar>" by linarith
  moreover have "nat \<bar>x\<bar> \<le> 2 ^ 53" using a by (simp add: nat_le_iff)
  then have "round_to_53 (nat \<bar>x\<bar>) = nat \<bar>x\<bar>" by (simp add: round_to_53_def)
  moreover have "sgn x * int (nat \<bar>x\<bar>) = x" by (simp add: sgn_if)
  ultimately show ?thesis by (simp add: to_double_def)
qed

text \<open>Beyond \<open>2^53\<close> a sum is rounded, a tie to the even mantissa.\<close>

lemma bitlen_numeral:
  "bitlen 0 = 0"
  "bitlen (Suc 0) = 1"
  "bitlen (numeral (Num.Bit0 n)) = Suc (bitlen (numeral n))"
  "bitlen (numeral (Num.Bit1 n)) = Suc (bitlen (numeral n))"
  by (subst bitlen.simps, simp add: bitlen.simps)+

lemma to_double_rounds:
  "to_double (2 ^ 53 + 1) = Fin (2 ^ 53)"
  "to_double (2 ^ 53 + 3) = Fin (2 ^ 53 + 4)"
  "to_double (- (2 ^ 53) - 1) = Fin (- (2 ^ 53))"
  by (simp_all add: to_double_def round_to_53_def bitlen_numeral Let_def)

text \<open>The weight \<open>- 2^1023\<close> is a double; twice that weight is below the range of doubles.\<close>

lemma bitlen_power: "bitlen (2 ^ n) = Suc n"
proof (induction n)
  case 0
  show ?case by (simp add: bitlen.simps)
next
  case (Suc n)
  show ?case by (subst bitlen.simps) (simp add: Suc)
qed

lemma round_to_53_power:
  assumes "53 < n"
  shows "round_to_53 (2 ^ n) = 2 ^ n"
proof -
  have k: "bitlen (2 ^ n) - 53 = n - 52" by (simp add: bitlen_power)
  have "n = 52 + (n - 52)" using assms by simp
  then have "(2 :: nat) ^ n = 2 ^ (52 + (n - 52))" by simp
  then have split: "(2 :: nat) ^ n = 2 ^ 52 * 2 ^ (n - 52)"
    by (simp only: power_add)
  have q: "(2 :: nat) ^ n div 2 ^ (n - 52) = 2 ^ 52" "(2 :: nat) ^ n mod 2 ^ (n - 52) = 0"
    by (subst split, simp)+
  have "(2 :: nat) ^ 53 < 2 ^ n"
    by (rule power_strict_increasing) (use assms in simp_all)
  then have big: "\<not> (2 :: nat) ^ n \<le> 2 ^ 53" by (simp only: not_le)
  have down: "\<not> ((2 :: nat) ^ (n - 52) < 2 * 0 \<or> (2 * 0 = (2 :: nat) ^ (n - 52) \<and> odd ((2 :: nat) ^ 52)))"
    by simp
  have "round_to_53 (2 ^ n) = 2 ^ 52 * 2 ^ (n - 52)"
    by (simp only: round_to_53_def Let_def k q big down if_False)
  then show ?thesis by (simp only: split)
qed

lemma to_double_huge: "to_double (- huge) = Fin (- huge)"
proof -
  have "round_to_53 (2 ^ 1023) = 2 ^ 1023" by (rule round_to_53_power) simp
  moreover have "nat \<bar>- huge\<bar> = 2 ^ 1023" by (simp add: huge_def nat_power_eq)
  moreover have "\<not> 2 ^ 1024 - 2 ^ 970 \<le> \<bar>- huge\<bar>" by (simp add: huge_def)
  moreover have "sgn (- huge) = - 1" by (simp add: huge_def)
  ultimately show ?thesis by (simp add: to_double_def huge_def)
qed

lemma to_double_overflow:
  "to_double (- huge + - huge) = NegInfinity" "to_double (- (2 * huge)) = NegInfinity"
  by (simp_all add: to_double_def huge_def)

section \<open>Writes\<close>

lemma set_previous_null_Some [simp]: "set_previous_null np k (Some v) = np"
  by (simp add: set_previous_null_def)

lemma set_distance_proto [simp]: "set_distance d k v proto_key = d proto_key"
  by (simp add: set_distance_def)

lemma set_distance_plain: "k \<noteq> proto_key \<Longrightarrow> set_distance d k v = d(k \<mapsto> v)"
  by (simp add: set_distance_def)

lemma set_previous_plain: "k \<noteq> proto_key \<Longrightarrow> set_previous p np k v = p(k \<mapsto> v)"
  by (simp add: set_previous_def)

text \<open>
  A relaxation follows a successful comparison with \<open>distances[v]\<close>; then \<open>v\<close> is a key of
  the distances, hence not \<open>__proto__\<close>, and both assignments are plain updates.
\<close>

lemma relax_write_plain:
  assumes "st_distances st proto_key = None" and "js_lt x (to_number (st_distances st v))"
  shows "relax_write i u v x st =
     \<lparr>st_distances = (st_distances st)(v \<mapsto> x), st_previous = (st_previous st)(v \<mapsto> Some u),
      st_null_proto = st_null_proto st,
      st_steps = st_steps st @
        [relax_step i u v ((st_distances st)(v \<mapsto> x)) ((st_previous st)(v \<mapsto> Some u))]\<rparr>"
proof -
  from js_lt_right [OF assms(2)] assms(1) have "v \<noteq> proto_key" by auto
  then show ?thesis
    by (simp add: relax_write_def Let_def set_distance_plain set_previous_plain)
qed

lemma relax_write_steps:
  "\<exists>s. st_steps (relax_write i u v x st) = st_steps st @ [s] \<and> stype s = relax"
  by (simp add: relax_write_def Let_def relax_step_def)

lemma relax_write_proto [simp]:
  "st_distances (relax_write i u v x st) proto_key = st_distances st proto_key"
  by (simp add: relax_write_def Let_def)

section \<open>The loops keep every stable property\<close>

lemma inv_state_push:
  "inv_state P st \<Longrightarrow> snap_distances s = st_distances st \<Longrightarrow> snap_previous s = st_previous st \<Longrightarrow>
   inv_state P (st\<lparr>st_steps := st_steps st @ [s]\<rparr>)"
  by (auto simp: inv_state_def)

lemma relax_write_inv:
  assumes "stable P" and "inv_state P st"
    and "js_lt (js_add (to_number (st_distances st u)) w) (to_number (st_distances st v))"
  shows "inv_state P (relax_write i u v (js_add (to_number (st_distances st u)) w) st)"
proof -
  let ?d = "(st_distances st)(v \<mapsto> js_add (to_number (st_distances st u)) w)"
  let ?p = "(st_previous st)(v \<mapsto> Some u)"
  have proto: "st_distances st proto_key = None" using assms(2) by (simp add: inv_state_def)
  from js_lt_right [OF assms(3)] proto have v: "v \<noteq> proto_key" by auto
  have "P ?d ?p" using assms by (auto simp: stable_def inv_state_def)
  then show ?thesis
    unfolding relax_write_plain [OF proto assms(3)]
    using assms(2) proto v by (auto simp: inv_state_def relax_step_def)
qed

lemma relax_neighbors_inv:
  "stable P \<Longrightarrow> inv_state P st \<Longrightarrow> inv_state P (relax_neighbors m i nbrs st)"
proof (induction nbrs arbitrary: st)
  case Nil
  then show ?case by simp
next
  case (Cons a nbrs)
  obtain v w where a: "a = (v, w)" by (cases a)
  show ?case
  proof (cases "js_lt (js_add (to_number (st_distances st m)) w) (to_number (st_distances st v))")
    case True
    from Cons.IH [OF Cons.prems(1) relax_write_inv [OF Cons.prems True]]
    show ?thesis using True a by (simp add: Let_def)
  next
    case False
    then show ?thesis using Cons a by simp
  qed
qed

lemma relax_edges_inv:
  "stable P \<Longrightarrow> inv_state P st \<Longrightarrow> inv_state P (snd (relax_edges i es (b, st)))"
proof (induction es arbitrary: st b)
  case Nil
  then show ?case by simp
next
  case (Cons e es)
  show ?case
  proof (cases "can_relax (st_distances st) e")
    case True
    then have "js_lt (js_add (to_number (st_distances st (source e))) (weight e))
        (to_number (st_distances st (destination e)))"
      by (simp add: can_relax_def)
    from Cons.IH [OF Cons.prems(1) relax_write_inv [OF Cons.prems this]]
    show ?thesis using True by simp
  next
    case False
    then show ?thesis using Cons by simp
  qed
qed

text \<open>
  The rule for the selection loop: a property of the visited set, the counter and the
  state that holds at the start and is kept by one round holds when the loop returns, and
  then the loop condition fails or the scan found no node (or the empty id).
\<close>

lemma dijkstra_loop_rule:
  assumes run: "dijkstra_loop nodes adjList visited i st = Inr (j, st')"
    and start: "I visited i st"
    and round: "\<And>visited i st m md nbrs.
        I visited i st \<Longrightarrow> length visited < length nodes \<Longrightarrow>
        scan_min nodes visited (st_distances st) (None, Infinity) = (Some m, md) \<Longrightarrow>
        m \<noteq> [] \<Longrightarrow> adjList m = Some nbrs \<Longrightarrow>
        I (set_add m visited) (Suc i)
          (relax_neighbors m i nbrs (st\<lparr>st_steps := st_steps st @ [select_step i m st]\<rparr>))"
  shows "\<exists>visited'. I visited' j st' \<and>
           (length nodes \<le> length visited' \<or>
            fst (scan_min nodes visited' (st_distances st') (None, Infinity)) \<in> {None, Some []})"
  using run start round
proof (induction nodes adjList visited i st rule: dijkstra_loop.induct)
  case (1 nodes adjList visited i st)
  note run = "1.prems"(1) and start = "1.prems"(2) and round = "1.prems"(3)
  show ?case
  proof (cases "length visited < length nodes")
    case False
    then have "j = i" "st' = st" using run by (simp_all add: dijkstra_loop.simps)
    then show ?thesis using False start by (intro exI [of _ visited]) simp
  next
    case True
    obtain mn md where sc: "scan_min nodes visited (st_distances st) (None, Infinity) = (mn, md)"
      by (cases "scan_min nodes visited (st_distances st) (None, Infinity)")
    show ?thesis
    proof (cases "mn = None \<or> mn = Some []")
      case stop: True
      then have "j = i" "st' = st" using run True sc by (auto simp: dijkstra_loop.simps)
      then show ?thesis using stop sc start by (intro exI [of _ visited]) auto
    next
      case False
      then obtain m where m: "mn = Some m" "m \<noteq> []" by auto
      show ?thesis
      proof (cases "adjList m")
        case None
        then show ?thesis using run True sc m by (simp add: dijkstra_loop.simps)
      next
        case (Some nbrs)
        let ?st1 = "relax_neighbors m i nbrs (st\<lparr>st_steps := st_steps st @ [select_step i m st]\<rparr>)"
        have run': "dijkstra_loop nodes adjList (set_add m visited) (Suc i) ?st1 = Inr (j, st')"
          using run True sc m Some by (subst (asm) dijkstra_loop.simps) simp
        have sc': "scan_min nodes visited (st_distances st) (None, Infinity) = (Some m, md)"
          using sc m(1) by simp
        have I': "I (set_add m visited) (Suc i) ?st1"
          by (rule round [OF start True sc' m(2) Some])
        show ?thesis
          by (rule "1.IH" [OF True sc [symmetric] m(1) m(2) Some run' I' round])
      qed
    qed
  qed
qed

lemma dijkstra_loop_inv:
  assumes "dijkstra_loop nodes adjList visited i st = Inr (j, st')"
    and "stable P" and "inv_state P st"
  shows "inv_state P st'"
proof -
  have "\<exists>visited'. inv_state P st' \<and>
           (length nodes \<le> length visited' \<or>
            fst (scan_min nodes visited' (st_distances st') (None, Infinity)) \<in> {None, Some []})"
    using assms(1,3)
  proof (rule dijkstra_loop_rule [where I = "\<lambda>visited i st. inv_state P st"])
    fix visited i st m md nbrs
    assume "inv_state P st"
    then have "inv_state P (st\<lparr>st_steps := st_steps st @ [select_step i m st]\<rparr>)"
      by (rule inv_state_push) (simp_all add: select_step_def)
    then show "inv_state P (relax_neighbors m i nbrs (st\<lparr>st_steps := st_steps st @ [select_step i m st]\<rparr>))"
      using assms(2) by (rule relax_neighbors_inv [rotated])
  qed
  then show ?thesis by blast
qed

lemma bf_passes_inv:
  "stable P \<Longrightarrow> inv_state P st \<Longrightarrow> inv_state P (bf_passes nodes edges i st)"
proof (induction nodes edges i st rule: bf_passes.induct)
  case (1 nodes edges i st)
  show ?case
  proof (cases "int i \<le> int (length nodes) - 1")
    case False
    then show ?thesis using "1.prems" by (simp add: bf_passes.simps)
  next
    case True
    obtain relaxed st1 where re: "relax_edges i edges (False, st) = (relaxed, st1)"
      by (cases "relax_edges i edges (False, st)")
    have st1: "inv_state P st1"
      using relax_edges_inv [OF "1.prems", of i edges False] re by simp
    show ?thesis
    proof (cases relaxed)
      case True
      then show ?thesis
        using "1.IH" [OF \<open>int i \<le> int (length nodes) - 1\<close> re [symmetric] _ "1.prems"(1) st1]
          \<open>int i \<le> int (length nodes) - 1\<close> re by (subst bf_passes.simps) simp
    next
      case False
      have "inv_state P (st1\<lparr>st_steps := st_steps st1 @ [update_step i st1]\<rparr>)"
        using st1 by (rule inv_state_push) (simp_all add: update_step_def)
      then show ?thesis using False \<open>int i \<le> int (length nodes) - 1\<close> re
        by (subst bf_passes.simps) simp
    qed
  qed
qed

text \<open>The maps after the initialisation.\<close>

lemma init_maps_distances:
  "fst (init_maps ns src (d, p, np)) k =
     (if k \<in> node_ids ns \<and> k \<noteq> proto_key then Some (if k = src then Fin 0 else Infinity)
      else d k)"
  by (induction ns arbitrary: d p np) (auto simp: set_distance_def)

lemma init_maps_previous:
  "k \<noteq> proto_key \<Longrightarrow>
   fst (snd (init_maps ns src (d, p, np))) k = (if k \<in> node_ids ns then Some None else p k)"
  by (induction ns arbitrary: d p np) (auto simp: set_previous_def)

lemma init_maps_previous_proto:
  "fst (snd (init_maps ns src (d, p, np))) k = Some None \<or>
   fst (snd (init_maps ns src (d, p, np))) k = p k"
proof (induction ns arbitrary: d p np)
  case Nil
  show ?case by simp
next
  case (Cons n ns)
  let ?p = "set_previous p np (node_id n) None"
  have "?p k = Some None \<or> ?p k = p k" by (simp add: set_previous_def)
  with Cons.IH [of "set_distance d (node_id n) (if node_id n = src then Fin 0 else Infinity)"
      ?p "set_previous_null np (node_id n) None"]
  show ?case by auto
qed

lemma init_state_distances:
  "st_distances (init_state nodes src) k =
     (if k \<in> node_ids nodes \<and> k \<noteq> proto_key then Some (if k = src then Fin 0 else Infinity)
      else None)"
  using init_maps_distances [of nodes src Map.empty Map.empty False k]
  by (cases "init_maps nodes src (Map.empty, Map.empty, False)") (simp add: init_state_def)

lemma init_state_previous:
  "k \<noteq> proto_key \<Longrightarrow>
   st_previous (init_state nodes src) k = (if k \<in> node_ids nodes then Some None else None)"
  using init_maps_previous [of k nodes src Map.empty Map.empty False]
  by (cases "init_maps nodes src (Map.empty, Map.empty, False)") (simp add: init_state_def)

lemma init_state_previous_none:
  "st_previous (init_state nodes src) k = Some None \<or> st_previous (init_state nodes src) k = None"
  using init_maps_previous_proto [of nodes src Map.empty Map.empty False k]
  by (cases "init_maps nodes src (Map.empty, Map.empty, False)") (simp add: init_state_def)

lemma init_state_steps:
  "st_steps (init_state nodes src) =
     [initial_step (st_distances (init_state nodes src)) (st_previous (init_state nodes src))]"
  by (simp add: init_state_def split: prod.splits)

lemma init_state_inv:
  "P (st_distances (init_state nodes src)) (st_previous (init_state nodes src)) \<Longrightarrow>
   inv_state P (init_state nodes src)"
  by (simp add: inv_state_def init_state_steps initial_step_def init_state_distances)

lemma dijkstra_inv:
  assumes "dijkstra nodes edges src = Inr r" and "stable P"
    and "P (st_distances (init_state nodes src)) (st_previous (init_state nodes src))"
  shows "inv_result P r"
proof -
  from assms(1) obtain adjList j st where
    loop: "dijkstra_loop nodes adjList [] 1 (init_state nodes src) = Inr (j, st)"
    and r: "r = \<lparr>distances = st_distances st, previous = st_previous st,
                 steps = st_steps st @ [complete_step j st], hasNegativeCycle = False,
                 shortestPathTree = build_tree nodes edges (st_previous st) []\<rparr>"
    by (auto simp: dijkstra_def split: sum.splits)
  have "inv_state P st"
    using loop assms(2) init_state_inv [of P, OF assms(3)] by (rule dijkstra_loop_inv)
  then show ?thesis
    by (auto simp: r inv_result_def inv_state_def complete_step_def)
qed

lemma bellmanFord_inv:
  assumes "stable P"
    and "P (st_distances (init_state nodes src)) (st_previous (init_state nodes src))"
  shows "inv_result P (bellmanFord nodes edges src)"
proof -
  have "inv_state P (bf_passes nodes edges 1 (init_state nodes src))"
    using assms(1) init_state_inv [of P, OF assms(2)] by (rule bf_passes_inv)
  then show ?thesis
    by (auto simp: bellmanFord_def Let_def inv_result_def inv_state_def complete_step_def
        negative_cycle_step_def split: option.splits)
qed

section \<open>The adjacency builder\<close>

lemma init_adj_apply:
  "init_adj ns a k = (if k \<in> node_ids ns then Some [] else a k)"
  by (induction ns arbitrary: a) auto

lemma add_edges_ok:
  "\<forall>e \<in> set es. source e \<in> dom a \<Longrightarrow>
   add_edges es a = Inr (\<lambda>k. case a k of None \<Rightarrow> None | Some l \<Rightarrow> Some (l @ out_edges es k))"
proof (induction es arbitrary: a)
  case Nil
  show ?case by (auto simp: out_edges_def fun_eq_iff split: option.splits)
next
  case (Cons e es)
  from Cons.prems obtain l where l: "a (source e) = Some l" by auto
  let ?a = "a(source e \<mapsto> l @ [(destination e, weight e)])"
  have "\<forall>x \<in> set es. source x \<in> dom ?a" using Cons.prems by auto
  from Cons.IH [OF this]
  have "add_edges es ?a = Inr (\<lambda>k. case ?a k of None \<Rightarrow> None | Some l \<Rightarrow> Some (l @ out_edges es k))" .
  moreover have "(\<lambda>k. case ?a k of None \<Rightarrow> None | Some l \<Rightarrow> Some (l @ out_edges es k))
      = (\<lambda>k. case a k of None \<Rightarrow> None | Some l \<Rightarrow> Some (l @ out_edges (e # es) k))"
    using l by (auto simp: out_edges_def fun_eq_iff split: option.splits)
  ultimately show ?case unfolding add_edges.simps l option.case by simp
qed

lemma add_edges_fail:
  "\<exists>e \<in> set es. source e \<notin> dom a \<Longrightarrow> add_edges es a = Inl TypeError"
proof (induction es arbitrary: a)
  case Nil
  then show ?case by simp
next
  case (Cons e es)
  show ?case
  proof (cases "a (source e)")
    case None
    then show ?thesis by simp
  next
    case (Some l)
    from Cons.prems obtain x where x: "x \<in> set (e # es)" "source x \<notin> dom a" by blast
    with Some have "x \<in> set es" "source x \<noteq> source e" by auto
    with x(2) have "\<exists>x \<in> set es. source x \<notin> dom (a(source e \<mapsto> l @ [(destination e, weight e)]))"
      by auto
    from Cons.IH [OF this] show ?thesis unfolding add_edges.simps Some option.case .
  qed
qed

lemma buildAdjacencyList_eq:
  "buildAdjacencyList nodes edges =
     (if \<forall>e \<in> set edges. source e \<in> node_ids nodes
      then Inr (\<lambda>k. if k \<in> node_ids nodes then Some (out_edges edges k) else None)
      else Inl TypeError)"
proof (cases "\<forall>e \<in> set edges. source e \<in> node_ids nodes")
  case True
  have d: "dom (init_adj nodes Map.empty) = node_ids nodes"
    by (auto simp: init_adj_apply dom_def)
  have "add_edges edges (init_adj nodes Map.empty) =
      Inr (\<lambda>k. case init_adj nodes Map.empty k of None \<Rightarrow> None
                | Some l \<Rightarrow> Some (l @ out_edges edges k))"
    by (rule add_edges_ok) (use True d in simp)
  then show ?thesis using True
    by (simp add: buildAdjacencyList_def init_adj_apply fun_eq_iff)
next
  case False
  have d: "dom (init_adj nodes Map.empty) = node_ids nodes"
    by (auto simp: init_adj_apply dom_def)
  have "add_edges edges (init_adj nodes Map.empty) = Inl TypeError"
    by (rule add_edges_fail) (use False d in simp)
  then show ?thesis using False by (simp add: buildAdjacencyList_def)
qed

text \<open>
  The builder of the second variant returns unless an edge source is a name that
  \<open>Object.prototype\<close> defines; it creates an entry for every other edge source, and none
  for a node with such a name.
\<close>

lemma init_adj_alt_apply:
  "init_adj_alt ns a k =
     (if k \<in> node_ids ns \<and> a k = None \<and> k \<notin> set inherited_keys then Some [] else a k)"
  by (induction ns arbitrary: a) auto

lemma add_edges_alt_ok:
  "\<forall>e \<in> set es. source e \<notin> set inherited_keys \<Longrightarrow>
   add_edges_alt es a =
     Inr (\<lambda>k. case a k of
                None \<Rightarrow> if k \<in> source ` set es then Some (out_edges es k) else None
              | Some l \<Rightarrow> Some (l @ out_edges es k))"
proof (induction es arbitrary: a)
  case Nil
  show ?case by (auto simp: out_edges_def fun_eq_iff split: option.splits)
next
  case (Cons e es)
  have e: "source e \<notin> set inherited_keys" and es: "\<forall>x \<in> set es. source x \<notin> set inherited_keys"
    using Cons.prems by auto
  let ?l = "case a (source e) of None \<Rightarrow> [] | Some l \<Rightarrow> l"
  let ?a = "a(source e \<mapsto> ?l @ [(destination e, weight e)])"
  have step: "add_edges_alt (e # es) a = add_edges_alt es ?a"
    using e by (cases "a (source e)") simp_all
  have "(\<lambda>k. case ?a k of
               None \<Rightarrow> if k \<in> source ` set es then Some (out_edges es k) else None
             | Some l \<Rightarrow> Some (l @ out_edges es k))
      = (\<lambda>k. case a k of
               None \<Rightarrow> if k \<in> source ` set (e # es) then Some (out_edges (e # es) k) else None
             | Some l \<Rightarrow> Some (l @ out_edges (e # es) k))"
    by (auto simp: out_edges_def fun_eq_iff split: option.splits)
  then show ?case unfolding step Cons.IH [OF es] by simp
qed

lemma add_edges_alt_fail:
  "\<exists>e \<in> set es. source e \<in> set inherited_keys \<Longrightarrow> \<forall>k \<in> set inherited_keys. a k = None \<Longrightarrow>
   add_edges_alt es a = Inl TypeError"
proof (induction es arbitrary: a)
  case Nil
  then show ?case by simp
next
  case (Cons e es)
  show ?case
  proof (cases "source e \<in> set inherited_keys")
    case True
    then show ?thesis using Cons.prems(2) by simp
  next
    case False
    let ?l = "case a (source e) of None \<Rightarrow> [] | Some l \<Rightarrow> l"
    let ?a = "a(source e \<mapsto> ?l @ [(destination e, weight e)])"
    have step: "add_edges_alt (e # es) a = add_edges_alt es ?a"
      using False by (cases "a (source e)") simp_all
    have "\<exists>x \<in> set es. source x \<in> set inherited_keys" using Cons.prems(1) False by auto
    moreover have "\<forall>k \<in> set inherited_keys. ?a k = None" using Cons.prems(2) False by auto
    ultimately show ?thesis unfolding step by (rule Cons.IH)
  qed
qed

lemma buildAdjacencyList_alt_eq:
  "buildAdjacencyList_alt nodes edges =
     (if \<forall>e \<in> set edges. source e \<notin> set inherited_keys
      then Inr (\<lambda>k. if k \<in> (node_ids nodes - set inherited_keys) \<union> source ` set edges
                     then Some (out_edges edges k) else None)
      else Inl TypeError)"
proof (cases "\<forall>e \<in> set edges. source e \<notin> set inherited_keys")
  case True
  show ?thesis
    unfolding buildAdjacencyList_alt_def add_edges_alt_ok [OF True]
    using True by (auto simp: init_adj_alt_apply fun_eq_iff)
next
  case False
  have "add_edges_alt edges (init_adj_alt nodes Map.empty) = Inl TypeError"
    by (rule add_edges_alt_fail) (use False in \<open>auto simp: init_adj_alt_apply\<close>)
  then show ?thesis using False by (simp add: buildAdjacencyList_alt_def)
qed

section \<open>When Dijkstra returns\<close>

lemma scan_min_Some:
  "scan_min ns visited dist (a, d) = (Some m, d') \<Longrightarrow>
   a = Some m \<or> (m \<in> node_ids ns \<and> m \<notin> set visited)"
  by (induction ns arbitrary: a d) (auto split: if_splits)

lemma scan_min_found:
  "scan_min ns visited dist (None, d) = (Some m, d') \<Longrightarrow> m \<in> node_ids ns \<and> m \<notin> set visited"
  using scan_min_Some [of ns visited dist None d m d'] by simp

lemma dijkstra_loop_returns:
  "node_ids nodes \<subseteq> dom adjList \<Longrightarrow> \<exists>j st'. dijkstra_loop nodes adjList visited i st = Inr (j, st')"
proof (induction nodes adjList visited i st rule: dijkstra_loop.induct)
  case (1 nodes adjList visited i st)
  show ?case
  proof (cases "length visited < length nodes")
    case False
    then show ?thesis by (simp add: dijkstra_loop.simps)
  next
    case True
    obtain mn md where sc: "scan_min nodes visited (st_distances st) (None, Infinity) = (mn, md)"
      by (cases "scan_min nodes visited (st_distances st) (None, Infinity)")
    show ?thesis
    proof (cases "mn = None \<or> mn = Some []")
      case stop: True
      then show ?thesis using True sc by (auto simp: dijkstra_loop.simps)
    next
      case False
      then obtain m where m: "mn = Some m" "m \<noteq> []" by auto
      have "m \<in> node_ids nodes" using scan_min_found sc m(1) by blast
      then obtain nbrs where nb: "adjList m = Some nbrs" using "1.prems" by auto
      from "1.IH" [OF True sc [symmetric] m(1) m(2) nb "1.prems"]
      show ?thesis using True sc m nb by (subst dijkstra_loop.simps) simp
    qed
  qed
qed

lemma dijkstra_returns_iff:
  "(\<exists>r. dijkstra nodes edges src = Inr r) \<longleftrightarrow> (\<forall>e \<in> set edges. source e \<in> node_ids nodes)"
proof (cases "\<forall>e \<in> set edges. source e \<in> node_ids nodes")
  case True
  let ?adj = "\<lambda>k. if k \<in> node_ids nodes then Some (out_edges edges k) else None"
  have b: "buildAdjacencyList nodes edges = Inr ?adj"
    using True by (simp add: buildAdjacencyList_eq)
  have "node_ids nodes \<subseteq> dom ?adj" by (auto simp: dom_def)
  from dijkstra_loop_returns [OF this]
  obtain j st' where "dijkstra_loop nodes ?adj [] 1 (init_state nodes src) = Inr (j, st')"
    by blast
  then show ?thesis using True b by (simp add: dijkstra_def)
next
  case False
  then have "buildAdjacencyList nodes edges = Inl TypeError"
    by (simp add: buildAdjacencyList_eq)
  then show ?thesis using False by (simp add: dijkstra_def)
qed

lemma dijkstra_fails:
  "\<exists>e \<in> set edges. source e \<notin> node_ids nodes \<Longrightarrow> dijkstra nodes edges src = Inl TypeError"
  by (auto simp: dijkstra_def buildAdjacencyList_eq)

section \<open>Steps are only appended\<close>

lemma relax_neighbors_steps:
  "\<exists>ys. st_steps (relax_neighbors m i nbrs st) = st_steps st @ ys \<and> (\<forall>s \<in> set ys. stype s = relax)"
proof (induction nbrs arbitrary: st)
  case Nil
  show ?case by simp
next
  case (Cons a nbrs)
  obtain v w where a: "a = (v, w)" by (cases a)
  show ?case
  proof (cases "js_lt (js_add (to_number (st_distances st m)) w) (to_number (st_distances st v))")
    case True
    let ?st = "relax_write i m v (js_add (to_number (st_distances st m)) w) st"
    obtain s where s: "st_steps ?st = st_steps st @ [s]" "stype s = relax"
      using relax_write_steps by blast
    from Cons.IH [of ?st] obtain ys where
      "st_steps (relax_neighbors m i nbrs ?st) = st_steps ?st @ ys" "\<forall>s \<in> set ys. stype s = relax"
      by blast
    then have "st_steps (relax_neighbors m i (a # nbrs) st) = st_steps st @ (s # ys)
        \<and> (\<forall>s \<in> set (s # ys). stype s = relax)"
      using True a s by (simp add: Let_def)
    then show ?thesis by blast
  next
    case False
    then show ?thesis using Cons.IH [of st] a by simp
  qed
qed

lemma relax_edges_steps:
  "\<exists>ys. st_steps (snd (relax_edges i es (b, st))) = st_steps st @ ys \<and> (\<forall>s \<in> set ys. stype s = relax)"
proof (induction es arbitrary: st b)
  case Nil
  show ?case by simp
next
  case (Cons e es)
  show ?case
  proof (cases "can_relax (st_distances st) e")
    case True
    let ?st = "relax_write i (source e) (destination e)
        (js_add (to_number (st_distances st (source e))) (weight e)) st"
    obtain s where s: "st_steps ?st = st_steps st @ [s]" "stype s = relax"
      using relax_write_steps by blast
    from Cons.IH [of True ?st] obtain ys where
      "st_steps (snd (relax_edges i es (True, ?st))) = st_steps ?st @ ys" "\<forall>s \<in> set ys. stype s = relax"
      by blast
    then have "st_steps (snd (relax_edges i (e # es) (b, st))) = st_steps st @ (s # ys)
        \<and> (\<forall>s \<in> set (s # ys). stype s = relax)"
      using True s by simp
    then show ?thesis by blast
  next
    case False
    then show ?thesis using Cons.IH [of b st] by simp
  qed
qed

lemma dijkstra_loop_steps:
  assumes "dijkstra_loop nodes adjList visited i st = Inr (j, st')"
  shows "\<exists>ys. st_steps st' = st_steps st @ ys \<and> (\<forall>s \<in> set ys. stype s = select \<or> stype s = relax)"
proof -
  let ?I = "\<lambda>(visited :: string list) (i :: nat) (st' :: state).
      \<exists>ys. st_steps st' = st_steps st @ ys \<and> (\<forall>s \<in> set ys. stype s = select \<or> stype s = relax)"
  have "\<exists>visited'. ?I visited' j st' \<and>
           (length nodes \<le> length visited' \<or>
            fst (scan_min nodes visited' (st_distances st') (None, Infinity)) \<in> {None, Some []})"
    using assms
  proof (rule dijkstra_loop_rule [where I = ?I])
    show "?I visited i st" by simp
  next
    fix visited i st1 m md nbrs
    assume "?I visited i st1"
    then obtain ys where ys: "st_steps st1 = st_steps st @ ys"
      "\<forall>s \<in> set ys. stype s = select \<or> stype s = relax" by blast
    let ?st2 = "st1\<lparr>st_steps := st_steps st1 @ [select_step i m st1]\<rparr>"
    obtain zs where zs: "st_steps (relax_neighbors m i nbrs ?st2) = st_steps ?st2 @ zs"
      "\<forall>s \<in> set zs. stype s = relax"
      using relax_neighbors_steps [of m i nbrs ?st2] by blast
    have "st_steps (relax_neighbors m i nbrs ?st2) = st_steps st @ (ys @ select_step i m st1 # zs)"
      using ys(1) zs(1) by simp
    moreover have "\<forall>s \<in> set (ys @ select_step i m st1 # zs). stype s = select \<or> stype s = relax"
      using ys(2) zs(2) by (auto simp: select_step_def)
    ultimately show "?I (set_add m visited) (Suc i) (relax_neighbors m i nbrs ?st2)"
      by blast
  qed
  then show ?thesis by blast
qed

lemma bf_passes_steps:
  "\<exists>ys. st_steps (bf_passes nodes edges i st) = st_steps st @ ys \<and>
        (\<forall>s \<in> set ys. stype s = relax \<or> stype s = update)"
proof (induction nodes edges i st rule: bf_passes.induct)
  case (1 nodes edges i st)
  show ?case
  proof (cases "int i \<le> int (length nodes) - 1")
    case False
    then show ?thesis by (simp add: bf_passes.simps)
  next
    case True
    obtain relaxed st1 where re: "relax_edges i edges (False, st) = (relaxed, st1)"
      by (cases "relax_edges i edges (False, st)")
    obtain ys where ys: "st_steps st1 = st_steps st @ ys" "\<forall>s \<in> set ys. stype s = relax"
      using relax_edges_steps [of i edges False st] re by auto
    show ?thesis
    proof (cases relaxed)
      case False
      have "bf_passes nodes edges i st = st1\<lparr>st_steps := st_steps st1 @ [update_step i st1]\<rparr>"
        using True re False by (subst bf_passes.simps) simp
      then have "st_steps (bf_passes nodes edges i st) = st_steps st @ (ys @ [update_step i st1])"
        using ys(1) by simp
      moreover have "\<forall>s \<in> set (ys @ [update_step i st1]). stype s = relax \<or> stype s = update"
        using ys(2) by (auto simp: update_step_def)
      ultimately show ?thesis by blast
    next
      case relaxed: True
      have eq: "bf_passes nodes edges i st = bf_passes nodes edges (Suc i) st1"
        using True re relaxed by (subst bf_passes.simps) simp
      from "1.IH" [OF True re [symmetric]] relaxed
      obtain zs where zs: "st_steps (bf_passes nodes edges (Suc i) st1) = st_steps st1 @ zs"
        "\<forall>s \<in> set zs. stype s = relax \<or> stype s = update" by auto
      have "st_steps (bf_passes nodes edges i st) = st_steps st @ (ys @ zs)"
        using eq ys(1) zs(1) by simp
      moreover have "\<forall>s \<in> set (ys @ zs). stype s = relax \<or> stype s = update"
        using ys(2) zs(2) by auto
      ultimately show ?thesis by blast
    qed
  qed
qed

text \<open>The shape of the results.\<close>

lemma dijkstra_result:
  assumes "dijkstra nodes edges src = Inr r"
  obtains adjList j st ys where
    "buildAdjacencyList nodes edges = Inr adjList"
    "dijkstra_loop nodes adjList [] 1 (init_state nodes src) = Inr (j, st)"
    "distances r = st_distances st" "previous r = st_previous st"
    "steps r = initial_step (st_distances (init_state nodes src)) (st_previous (init_state nodes src))
                 # ys @ [complete_step j st]"
    "\<forall>s \<in> set ys. stype s = select \<or> stype s = relax"
    "hasNegativeCycle r = False"
    "shortestPathTree r = build_tree nodes edges (st_previous st) []"
proof -
  from assms obtain adjList j st where
    b: "buildAdjacencyList nodes edges = Inr adjList"
    and loop: "dijkstra_loop nodes adjList [] 1 (init_state nodes src) = Inr (j, st)"
    and r: "r = \<lparr>distances = st_distances st, previous = st_previous st,
                 steps = st_steps st @ [complete_step j st], hasNegativeCycle = False,
                 shortestPathTree = build_tree nodes edges (st_previous st) []\<rparr>"
    by (auto simp: dijkstra_def split: sum.splits)
  from dijkstra_loop_steps [OF loop] obtain ys where
    ys: "st_steps st = st_steps (init_state nodes src) @ ys"
      "\<forall>s \<in> set ys. stype s = select \<or> stype s = relax" by blast
  show ?thesis
    by (rule that [OF b loop _ _ _ ys(2)]) (simp_all add: r ys(1) init_state_steps)
qed

lemma bellmanFord_steps:
  "\<exists>ys t. steps (bellmanFord nodes edges src) =
      initial_step (st_distances (init_state nodes src)) (st_previous (init_state nodes src))
        # ys @ [t] \<and>
      (\<forall>s \<in> set ys. stype s = relax \<or> stype s = update) \<and>
      (stype t = complete \<or> stype t = negative_cycle)"
proof -
  obtain ys where ys: "st_steps (bf_passes nodes edges 1 (init_state nodes src)) =
      st_steps (init_state nodes src) @ ys" "\<forall>s \<in> set ys. stype s = relax \<or> stype s = update"
    using bf_passes_steps by blast
  show ?thesis
    using ys by (auto simp: bellmanFord_def Let_def init_state_steps complete_step_def
        negative_cycle_step_def split: option.splits)
qed

section \<open>Stable properties of the two maps\<close>

lemma stable_keys_are: "stable (keys_are ks)"
  unfolding stable_def keys_are_def
proof (intro allI impI)
  fix d :: "string \<rightharpoonup> number" and p :: "string \<rightharpoonup> string option" and u v w
  assume a: "(dom d = ks \<and> dom p = ks) \<and> js_lt (js_add (to_number (d u)) w) (to_number (d v))"
  then have "v \<in> dom d" using js_lt_right by blast
  then show "dom (d(v \<mapsto> js_add (to_number (d u)) w)) = ks \<and> dom (p(v \<mapsto> Some u)) = ks"
    using a by auto
qed

lemma init_maps_previous_plain:
  "proto_key \<notin> node_ids ns \<Longrightarrow>
   fst (snd (init_maps ns src (d, p, np))) k = (if k \<in> node_ids ns then Some None else p k)"
  by (induction ns arbitrary: d p np) (auto simp: set_previous_def)

lemma init_state_previous_plain:
  assumes "proto_key \<notin> node_ids nodes"
  shows "st_previous (init_state nodes src) k = (if k \<in> node_ids nodes then Some None else None)"
  using init_maps_previous_plain [OF assms, of src Map.empty Map.empty False k]
  by (cases "init_maps nodes src (Map.empty, Map.empty, False)") (simp add: init_state_def)

lemma init_keys_are:
  assumes "proto_key \<notin> node_ids nodes"
  shows "keys_are (node_ids nodes) (st_distances (init_state nodes src))
     (st_previous (init_state nodes src))"
proof -
  have "k \<noteq> proto_key" if "k \<in> node_ids nodes" for k using that assms by blast
  then show ?thesis
    by (auto simp: keys_are_def dom_def init_state_distances init_state_previous_plain [OF assms])
qed

lemma stable_pred_dist_consistent: "stable (pred_dist_consistent src)"
  unfolding stable_def
proof (intro allI impI)
  fix d :: "string \<rightharpoonup> number" and p :: "string \<rightharpoonup> string option" and u v w
  let ?x = "js_add (to_number (d u)) w"
  assume a: "pred_dist_consistent src d p \<and> js_lt ?x (to_number (d v))"
  from js_lt_left [of ?x] a have x: "?x = NegInfinity \<or> (\<exists>c. ?x = Fin c)" by blast
  show "pred_dist_consistent src (d(v \<mapsto> ?x)) (p(v \<mapsto> Some u))"
    unfolding pred_dist_consistent_def
  proof
    fix k
    assume k: "k \<in> dom (d(v \<mapsto> ?x))"
    show "(((p(v \<mapsto> Some u)) k = Some None \<and>
            (((d(v \<mapsto> ?x)) k = Some (Fin 0) \<and> k = src) \<or> (d(v \<mapsto> ?x)) k = Some Infinity)) \<or>
           ((\<exists>u'. (p(v \<mapsto> Some u)) k = Some (Some u')) \<and>
            ((\<exists>c. (d(v \<mapsto> ?x)) k = Some (Fin c)) \<or> (d(v \<mapsto> ?x)) k = Some NegInfinity)))"
    proof (cases "k = v")
      case True
      then show ?thesis using x by auto
    next
      case False
      then have "k \<in> dom d" using k by auto
      then show ?thesis using a False by (simp add: pred_dist_consistent_def)
    qed
  qed
qed

lemma init_pred_dist_consistent:
  "pred_dist_consistent src (st_distances (init_state nodes src)) (st_previous (init_state nodes src))"
  by (auto simp: pred_dist_consistent_def init_state_distances init_state_previous dom_def
      split: if_splits)

lemma starts_initialisedI:
  assumes "steps r = initial_step (st_distances (init_state nodes src))
      (st_previous (init_state nodes src)) # rest"
    and "src \<noteq> proto_key"
  shows "starts_initialised nodes src r"
  unfolding starts_initialised_def
  by (rule exI, rule exI [of _ rest])
    (use assms(2) in \<open>auto simp: assms(1) initial_step_def init_state_distances dom_def
       split: if_splits\<close>)

section \<open>Concrete runs\<close>

lemmas scenario_defs =
  scenario_nodes_def scenario_edges_def nd_def ed_def

lemmas step_defs =
  initial_step_def select_step_def relax_step_def update_step_def complete_step_def
  negative_cycle_step_def

lemmas write_defs =
  relax_write_def set_distance_def set_previous_def set_previous_null_def proto_key_def
  to_double_small

lemmas run_defs =
  dijkstra_def bellmanFord_def buildAdjacencyList_def init_state_def
  dijkstra_loop.simps bf_passes.simps set_add_def can_relax_def improves_def
  write_defs step_defs Let_def

lemma scenario_returns: "\<exists>r. dijkstra scenario_nodes scenario_edges ''A'' = Inr r"
  unfolding dijkstra_returns_iff by (simp add: scenario_defs)

section \<open>The two ways Bellman-Ford returns\<close>

lemma bellmanFord_complete:
  assumes "bf_passes nodes edges (Suc 0) (init_state nodes src) = st"
    and "find (improves (st_distances st)) edges = None"
  shows "bellmanFord nodes edges src =
     \<lparr>distances = st_distances st, previous = st_previous st,
      steps = st_steps st @ [complete_step (length nodes) st],
      hasNegativeCycle = False,
      shortestPathTree = build_tree nodes edges (st_previous st) []\<rparr>"
  using assms by (simp add: bellmanFord_def Let_def)


section \<open>Runs in which nothing can be relaxed\<close>

lemma scan_min_none:
  "\<forall>n \<in> set ns. node_id n \<in> set visited \<or> \<not> js_lt (to_number (dist (node_id n))) d \<Longrightarrow>
   scan_min ns visited dist (a, d) = (a, d)"
  by (induction ns) auto

lemma build_tree_none:
  "\<forall>n \<in> set ns. prev (node_id n) = Some None \<or> prev (node_id n) = None \<Longrightarrow>
   build_tree ns es prev t = t"
  by (induction ns) auto

lemma relax_edges_none:
  "\<forall>e \<in> set es. \<not> can_relax (st_distances st) e \<Longrightarrow> relax_edges i es (b, st) = (b, st)"
  by (induction es) auto


lemma all_infinite_no_relax:
  fixes d :: "string \<rightharpoonup> number"
  assumes "\<forall>k. d k = Some Infinity \<or> d k = None"
  shows "\<not> can_relax d e" and "\<not> improves d e"
proof -
  have "d (source e) = Some Infinity \<or> d (source e) = None" using assms by (rule spec)
  then show "\<not> can_relax d e" and "\<not> improves d e"
    by (auto simp: can_relax_def improves_def)
qed

lemma absent_source_init:
  assumes "src \<notin> node_ids nodes"
  shows "st_distances (init_state nodes src) =
     (\<lambda>k. if k \<in> node_ids nodes \<and> k \<noteq> proto_key then Some Infinity else None)"
  using assms by (auto simp: fun_eq_iff init_state_distances)

lemma absent_source_maps:
  assumes "src \<notin> node_ids nodes"
  shows "\<forall>k \<in> dom (st_distances (init_state nodes src)).
           st_distances (init_state nodes src) k = Some Infinity"
    and "\<forall>k \<in> dom (st_previous (init_state nodes src)).
           st_previous (init_state nodes src) k = Some None"
    and "node_ids nodes - {proto_key} \<subseteq>
           dom (st_distances (init_state nodes src)) \<inter> dom (st_previous (init_state nodes src))"
proof -
  show "\<forall>k \<in> dom (st_distances (init_state nodes src)).
      st_distances (init_state nodes src) k = Some Infinity"
    by (auto simp: absent_source_init [OF assms] split: if_splits)
  show "\<forall>k \<in> dom (st_previous (init_state nodes src)).
      st_previous (init_state nodes src) k = Some None"
  proof
    fix k
    assume "k \<in> dom (st_previous (init_state nodes src))"
    then show "st_previous (init_state nodes src) k = Some None"
      using init_state_previous_none [of nodes src k] by auto
  qed
  show "node_ids nodes - {proto_key} \<subseteq>
      dom (st_distances (init_state nodes src)) \<inter> dom (st_previous (init_state nodes src))"
    by (auto simp: init_state_distances init_state_previous dom_def)
qed

lemma absent_source_dijkstra:
  assumes "src \<notin> node_ids nodes" and "\<forall>e \<in> set edges. source e \<in> node_ids nodes"
  shows "\<exists>r. dijkstra nodes edges src = Inr r \<and> degenerate nodes r \<and>
              map stype (steps r) = [initial, complete]"
proof -
  let ?st = "init_state nodes src"
  let ?adj = "\<lambda>k. if k \<in> node_ids nodes then Some (out_edges edges k) else None"
  note d = absent_source_init [OF assms(1)]
  note m = absent_source_maps [OF assms(1)]
  have b: "buildAdjacencyList nodes edges = Inr ?adj"
    using assms(2) by (simp add: buildAdjacencyList_eq)
  have "scan_min nodes [] (st_distances ?st) (None, Infinity) = (None, Infinity)"
    by (rule scan_min_none) (simp add: d)
  then have "dijkstra_loop nodes ?adj [] 1 ?st = Inr (1, ?st)"
    by (subst dijkstra_loop.simps) simp
  moreover have "build_tree nodes edges (st_previous ?st) [] = []"
    by (rule build_tree_none) (rule ballI, rule init_state_previous_none)
  ultimately show ?thesis
    using m by (simp add: dijkstra_def b degenerate_def init_state_steps step_defs)
qed

lemma absent_source_bellmanFord:
  assumes "src \<notin> node_ids nodes"
  shows "degenerate nodes (bellmanFord nodes edges src) \<and>
     map stype (steps (bellmanFord nodes edges src)) =
       (if 2 \<le> length nodes then [initial, update, complete] else [initial, complete])"
proof -
  let ?st = "init_state nodes src"
  note d = absent_source_init [OF assms(1)]
  note m = absent_source_maps [OF assms(1)]
  have inf: "\<forall>k. st_distances ?st k = Some Infinity \<or> st_distances ?st k = None"
    by (simp add: d)
  have re: "relax_edges i edges (False, ?st) = (False, ?st)" for i
    by (rule relax_edges_none) (simp add: all_infinite_no_relax(1) [OF inf])
  have passes: "bf_passes nodes edges (Suc 0) ?st =
      (if 2 \<le> length nodes then ?st\<lparr>st_steps := st_steps ?st @ [update_step 1 ?st]\<rparr> else ?st)"
    by (subst bf_passes.simps) (auto simp: re)
  have nf: "find (improves (st_distances ?st)) edges = None"
    by (simp add: find_None_iff all_infinite_no_relax(2) [OF inf])
  have tree: "build_tree nodes edges (st_previous ?st) [] = []"
    by (rule build_tree_none) (rule ballI, rule init_state_previous_none)
  show ?thesis
  proof (cases "2 \<le> length nodes")
    case True
    let ?st1 = "?st\<lparr>st_steps := st_steps ?st @ [update_step 1 ?st]\<rparr>"
    have p: "bf_passes nodes edges (Suc 0) ?st = ?st1" using passes True by simp
    have "find (improves (st_distances ?st1)) edges = None" using nf by simp
    from bellmanFord_complete [OF p this] show ?thesis
      using True tree m by (simp add: degenerate_def init_state_steps step_defs)
  next
    case False
    have p: "bf_passes nodes edges (Suc 0) ?st = ?st" using passes False by simp
    from bellmanFord_complete [OF p nf] show ?thesis
      using False tree m by (simp add: degenerate_def init_state_steps step_defs)
  qed
qed

section \<open>A single node\<close>

lemma single_node_dijkstra:
  assumes "node_id n \<noteq> []" and "node_id n \<noteq> proto_key"
  shows "\<exists>r. dijkstra [n] [] (node_id n) = Inr r \<and>
            map stype (steps r) = [initial, select, complete] \<and>
            map currentNode (steps r) = [None, Some (node_id n), None] \<and>
            distances r = [node_id n \<mapsto> Fin 0] \<and> shortestPathTree r = []"
proof -
  let ?adj = "[node_id n \<mapsto> []] :: AdjacencyList"
  let ?st = "init_state [n] (node_id n)"
  let ?st1 = "?st\<lparr>st_steps := st_steps ?st @ [select_step 1 (node_id n) ?st]\<rparr>"
  have b: "buildAdjacencyList [n] [] = Inr ?adj"
    by (simp add: buildAdjacencyList_def)
  have d: "st_distances ?st = [node_id n \<mapsto> Fin 0]" "st_previous ?st = [node_id n \<mapsto> None]"
    using assms(2) by (simp_all add: init_state_def set_distance_def set_previous_def)
  have "dijkstra_loop [n] ?adj [node_id n] 2 ?st1 = Inr (2, ?st1)"
    by (subst dijkstra_loop.simps) simp
  then have "dijkstra_loop [n] ?adj [] 1 ?st = Inr (2, ?st1)"
    using assms(1) by (subst dijkstra_loop.simps) (simp add: d set_add_def numeral_2_eq_2)
  then show ?thesis
    by (simp add: dijkstra_def b d init_state_steps step_defs)
qed

lemma single_node_bellmanFord:
  "map stype (steps (bellmanFord [n] [] (node_id n))) = [initial, complete] \<and>
   shortestPathTree (bellmanFord [n] [] (node_id n)) = [] \<and>
   (node_id n \<noteq> proto_key \<longrightarrow> distances (bellmanFord [n] [] (node_id n)) = [node_id n \<mapsto> Fin 0])"
proof -
  let ?st = "init_state [n] (node_id n)"
  have d: "node_id n \<noteq> proto_key \<longrightarrow> st_distances ?st = [node_id n \<mapsto> Fin 0]"
    by (simp add: init_state_def set_distance_def)
  have t: "build_tree [n] [] prev [] = []" for prev
    by (simp split: option.splits)
  have "bf_passes [n] [] (Suc 0) ?st = ?st"
    by (subst bf_passes.simps) simp
  then show ?thesis
    using d by (simp add: bellmanFord_def Let_def t init_state_steps step_defs
        del: build_tree.simps)
qed

section \<open>Passes without relaxation\<close>


lemma update_step_steps [simp]: "update_step j (st\<lparr>st_steps := xs\<rparr>) = update_step j st"
  by (simp add: update_step_def)








section \<open>Negative cycles\<close>






section \<open>Runs without a node named \<open>__proto__\<close>\<close>

text \<open>
  When the source is not \<open>__proto__\<close>, the first step of every run is an \<open>initial\<close> step
  whose distances have the source at 0 as their only finite entry, or only infinite
  entries when the source is not a node.
\<close>

lemma first_step_initial:
  assumes "src \<noteq> proto_key"
  shows "(\<forall>r. dijkstra nodes edges src = Inr r \<longrightarrow> starts_initialised nodes src r) \<and>
     starts_initialised nodes src (bellmanFord nodes edges src)"
proof (intro conjI allI impI)
  fix r
  assume "dijkstra nodes edges src = Inr r"
  then show "starts_initialised nodes src r"
    by (rule dijkstra_result) (rule starts_initialisedI [OF _ assms])
next
  from bellmanFord_steps [of nodes edges src] show
    "starts_initialised nodes src (bellmanFord nodes edges src)"
    by (auto intro: starts_initialisedI [OF _ assms])
qed

text \<open>
  When no node is named \<open>__proto__\<close> and every edge joins two nodes, both maps of every
  step and of the result have exactly the node ids as keys.
\<close>

lemma key_set_fixed:
  assumes "\<forall>e \<in> set edges. source e \<in> node_ids nodes \<and> destination e \<in> node_ids nodes"
    and "proto_key \<notin> node_ids nodes"
  shows "(\<exists>r. dijkstra nodes edges src = Inr r \<and> inv_result (keys_are (node_ids nodes)) r) \<and>
    inv_result (keys_are (node_ids nodes)) (bellmanFord nodes edges src)"
proof
  from assms(1) obtain r where r: "dijkstra nodes edges src = Inr r"
    using dijkstra_returns_iff [of nodes edges src] by blast
  from dijkstra_inv [OF r stable_keys_are init_keys_are [OF assms(2)]] r
  show "\<exists>r. dijkstra nodes edges src = Inr r \<and> inv_result (keys_are (node_ids nodes)) r"
    by blast
next
  show "inv_result (keys_are (node_ids nodes)) (bellmanFord nodes edges src)"
    by (rule bellmanFord_inv [OF stable_keys_are init_keys_are [OF assms(2)]])
qed

section \<open>The claims\<close>

text \<open>
  Claim C1.  The two algorithms disagree on a graph with non-negative weights in which a
  node has the empty id: \<open>if (!minNode) break\<close> ends the selection loop of Dijkstra when
  that node is selected, and the node B behind it stays at infinite distance, while
  Bellman-Ford finds the distance 2.
\<close>

theorem empty_id_stops_dijkstra:
  "\<exists>r. dijkstra [nd ''A'', nd '''', nd ''B''] [ed ''A'' '''' 1, ed '''' ''B'' 1] ''A'' = Inr r \<and>
       distances r ''B'' = Some Infinity \<and>
       distances (bellmanFord [nd ''A'', nd '''', nd ''B''] [ed ''A'' '''' 1, ed '''' ''B'' 1] ''A'')
         ''B'' = Some (Fin 2)"
  by (simp add: run_defs nd_def ed_def)







text \<open>
  Claim C4.  On nodes A, B, C, edges (A,B,4), (A,C,1), (C,B,1) and source A, Dijkstra
  returns the distances A=0, C=1, B=2, the predecessors A=none, C=A, B=C, and the tree
  [(C,B,1), (A,C,1)].
\<close>

theorem dijkstra_scenario:
  "\<exists>r. dijkstra scenario_nodes scenario_edges ''A'' = Inr r \<and>
       dom (distances r) = {''A'', ''B'', ''C''} \<and>
       distances r ''A'' = Some (Fin 0) \<and> distances r ''C'' = Some (Fin 1) \<and>
       distances r ''B'' = Some (Fin 2) \<and>
       dom (previous r) = {''A'', ''B'', ''C''} \<and>
       previous r ''A'' = Some None \<and> previous r ''C'' = Some (Some ''A'') \<and>
       previous r ''B'' = Some (Some ''C'') \<and>
       shortestPathTree r = [ed ''C'' ''B'' 1, ed ''A'' ''C'' 1]"
  by (simp add: run_defs scenario_defs) auto

text \<open>
  Claim C5.  The builder of \<open>graphAlgorithms.ts\<close> does not tolerate an edge whose source
  is not a node: on the node A and the edge (B,A,1) the call of \<open>push\<close> on the missing
  entry throws.
\<close>

theorem buildAdjacencyList_unknown_source:
  "buildAdjacencyList [nd ''A''] [ed ''B'' ''A'' 1] = Inl TypeError"
  by (simp add: buildAdjacencyList_def nd_def ed_def)

text \<open>
  Claim C6, as the code has it.  When the source is not in the node list, every entry of
  the distances is \<open>Infinity\<close> and every entry of the predecessors is none, in every step
  and in the result, with an empty tree and no negative cycle.  No \<open>select\<close>, \<open>relax\<close> or
  \<open>negative_cycle\<close> step is emitted: Dijkstra (which returns when every edge source is a
  node) emits \<open>initial\<close> and \<open>complete\<close>; Bellman-Ford emits \<open>initial\<close>, one \<open>update\<close> step
  when there are at least two nodes, and \<open>complete\<close>.  The statement about Bellman-Ford is
  made for the inputs of \<open>no_inherited_destination\<close>.
\<close>

theorem absent_source_degenerate:
  assumes "src \<notin> node_ids nodes"
  shows "((\<forall>e \<in> set edges. source e \<in> node_ids nodes) \<longrightarrow>
            (\<exists>r. dijkstra nodes edges src = Inr r \<and> degenerate nodes r \<and>
                 map stype (steps r) = [initial, complete])) \<and>
         (no_inherited_destination nodes edges \<longrightarrow>
            degenerate nodes (bellmanFord nodes edges src) \<and>
            map stype (steps (bellmanFord nodes edges src)) =
              (if 2 \<le> length nodes then [initial, update, complete] else [initial, complete]))"
  using absent_source_dijkstra [OF assms] absent_source_bellmanFord [OF assms] by blast

theorem absent_source_degenerate_witness:
  "(\<exists>r. dijkstra scenario_nodes scenario_edges ''Z'' = Inr r \<and> degenerate scenario_nodes r \<and>
        map stype (steps r) = [initial, complete]) \<and>
   degenerate scenario_nodes (bellmanFord scenario_nodes scenario_edges ''Z'') \<and>
   map stype (steps (bellmanFord scenario_nodes scenario_edges ''Z'')) = [initial, update, complete]"
  using absent_source_degenerate [of "''Z''" scenario_nodes scenario_edges]
  by (simp add: scenario_defs no_inherited_destination_def inherited_methods_def)

text \<open>
  The claim as stated fails: steps follow the initialisation.  With the nodes A and B, no
  edges and the absent source Z, Bellman-Ford emits an \<open>update\<close> and a \<open>complete\<close> step
  after \<open>initial\<close>.
\<close>

theorem absent_source_more_steps:
  "map stype (steps (bellmanFord [nd ''A'', nd ''B''] [] ''Z'')) = [initial, update, complete]"
  by (simp add: run_defs nd_def)

text \<open>
  Claim C7, as the code has it.  In the result and in every step of either algorithm, for
  every key of the distances: without predecessor it is the source at distance 0 or is at
  distance \<open>Infinity\<close>, and with a predecessor its distance is finite or \<open>-Infinity\<close>.  The
  statement about Bellman-Ford is made for the inputs of \<open>no_inherited_destination\<close>.
\<close>

theorem predecessor_distance_invariant:
  "(\<forall>r. dijkstra nodes edges src = Inr r \<longrightarrow> inv_result (pred_dist_consistent src) r) \<and>
   (no_inherited_destination nodes edges \<longrightarrow>
      inv_result (pred_dist_consistent src) (bellmanFord nodes edges src))"
  using dijkstra_inv [OF _ stable_pred_dist_consistent init_pred_dist_consistent]
    bellmanFord_inv [OF stable_pred_dist_consistent init_pred_dist_consistent]
  by blast

theorem predecessor_distance_invariant_witness:
  "(\<exists>r. dijkstra scenario_nodes scenario_edges ''A'' = Inr r \<and>
        inv_result (pred_dist_consistent ''A'') r) \<and>
   inv_result (pred_dist_consistent ''A'') (bellmanFord scenario_nodes scenario_edges ''A'')"
proof -
  have "no_inherited_destination scenario_nodes scenario_edges"
    by (simp add: scenario_defs no_inherited_destination_def inherited_methods_def)
  then show ?thesis
    using predecessor_distance_invariant [of scenario_nodes scenario_edges "''A''"]
      scenario_returns
    by blast
qed

text \<open>
  The claim as stated fails: a sum of doubles can overflow.  On the path A, B, C whose two
  edges have the weight \<open>- 2^1023\<close>, with source A, Bellman-Ford stores \<open>- 2^1023\<close> for B
  and then \<open>-Infinity\<close> for C, with the predecessor B.
\<close>

theorem overflow_breaks_finiteness:
  "previous (bellmanFord scenario_nodes overflow_edges ''A'') ''C'' = Some (Some ''B'') \<and>
   distances (bellmanFord scenario_nodes overflow_edges ''A'') ''C'' = Some NegInfinity"
  by (simp add: run_defs scenario_nodes_def overflow_edges_def nd_def ed_def
      to_double_huge to_double_overflow)

text \<open>
  Claim C8.  The claim fails for a source named \<open>__proto__\<close>: the assignment
  \<open>distances['__proto__'] = 0\<close> creates no property, and on the single node \<open>__proto__\<close>
  with that node as source the distances of the \<open>initial\<close> step of either algorithm are
  empty, so that no entry is finite although the source is in the node list.  For every
  other source the claim holds (lemma \<open>first_step_initial\<close>).
\<close>

theorem proto_source_not_initialised:
  "(\<exists>r. dijkstra [nd ''__proto__''] [] ''__proto__'' = Inr r \<and>
        stype (hd (steps r)) = initial \<and> snap_distances (hd (steps r)) = Map.empty) \<and>
   stype (hd (steps (bellmanFord [nd ''__proto__''] [] ''__proto__''))) = initial \<and>
   snap_distances (hd (steps (bellmanFord [nd ''__proto__''] [] ''__proto__''))) = Map.empty"
  by (simp add: run_defs nd_def)

text \<open>
  Claim C9, as the code has it.  On a single node, no edges and that node as source:
  Dijkstra emits \<open>initial\<close>, a \<open>select\<close> of the node and \<open>complete\<close>, and returns the
  distance 0 for the node and an empty tree, when the id is neither empty nor
  \<open>__proto__\<close>; Bellman-Ford emits \<open>initial\<close> and \<open>complete\<close> and returns an empty tree, and
  returns the distance 0 for the node when the id is not \<open>__proto__\<close>.
\<close>

theorem single_node_run:
  "(node_id n \<noteq> [] \<and> node_id n \<noteq> proto_key \<longrightarrow>
      (\<exists>r. dijkstra [n] [] (node_id n) = Inr r \<and>
            map stype (steps r) = [initial, select, complete] \<and>
            map currentNode (steps r) = [None, Some (node_id n), None] \<and>
            distances r = [node_id n \<mapsto> Fin 0] \<and> shortestPathTree r = [])) \<and>
   map stype (steps (bellmanFord [n] [] (node_id n))) = [initial, complete] \<and>
   shortestPathTree (bellmanFord [n] [] (node_id n)) = [] \<and>
   (node_id n \<noteq> proto_key \<longrightarrow> distances (bellmanFord [n] [] (node_id n)) = [node_id n \<mapsto> Fin 0])"
  using single_node_dijkstra [of n] single_node_bellmanFord [of n] by blast

theorem single_node_run_witness:
  "(\<exists>r. dijkstra [nd ''A''] [] ''A'' = Inr r \<and>
        map stype (steps r) = [initial, select, complete] \<and>
        map currentNode (steps r) = [None, Some ''A'', None] \<and>
        distances r = [''A'' \<mapsto> Fin 0] \<and> shortestPathTree r = []) \<and>
   map stype (steps (bellmanFord [nd ''A''] [] ''A'')) = [initial, complete] \<and>
   distances (bellmanFord [nd ''A''] [] ''A'') = [''A'' \<mapsto> Fin 0] \<and>
   shortestPathTree (bellmanFord [nd ''A''] [] ''A'') = []"
  using single_node_run [of "nd ''A''"] by (simp add: nd_def proto_key_def)

text \<open>
  The claim as stated fails for Dijkstra: the source is selected, which pushes a
  \<open>select\<close> step between \<open>initial\<close> and \<open>complete\<close>.
\<close>

theorem single_node_dijkstra_selects:
  "map_sum id (map stype \<circ> steps) (dijkstra [nd ''A''] [] ''A'') = Inr [initial, select, complete]"
  by (simp add: run_defs nd_def)

text \<open>
  Claim C10.  The claim fails for a node named \<open>__proto__\<close>: the initialisation creates no
  property for it in the distances.  On the nodes A and \<open>__proto__\<close> with the edge from A
  to \<open>__proto__\<close> and source A, every edge joins two nodes, but the distances returned by
  either algorithm have the single key A.  Without such a node the claim holds (lemma
  \<open>key_set_fixed\<close>).
\<close>

theorem proto_node_has_no_key:
  "(\<exists>r. dijkstra [nd ''A'', nd ''__proto__''] [ed ''A'' ''__proto__'' 1] ''A'' = Inr r \<and>
        dom (distances r) = {''A''}) \<and>
   dom (distances (bellmanFord [nd ''A'', nd ''__proto__''] [ed ''A'' ''__proto__'' 1] ''A'')) =
     {''A''}"
  by (simp add: run_defs nd_def ed_def)

end
